theory Spec2Isabelle
  imports Main "HOL-Library.Multiset"
begin

section \<open>all\_construct: every way to build a target string from a word bank\<close>

text \<open>
  The development embeds \<^verbatim>\<open>dynamic_programming/all_construct.py\<close>. A Python
  \<^verbatim>\<open>str\<close> is a \<open>string\<close>; the model only ever compares characters for equality,
  so one \<open>char\<close> stands for one code point.
\<close>

subsection \<open>Python values and errors\<close>

text \<open>
  The arguments are dynamically typed. The values that the validation code can tell apart
  are \<^verbatim>\<open>None\<close>, booleans, integers, strings and lists.
\<close>

datatype pyval = PNone | PBool bool | PInt int | PStr string | PList "pyval list"

text \<open>
  \<open>TypeError\<close> and \<open>ValueError\<close> are raised by the validation code, with the message of
  the source. \<open>IndexError\<close> is what a list access beyond the end raises.
  \<open>NonTermination\<close> stands for a loop that never ends: \<^verbatim>\<open>xs.extend(... for c in xs)\<close>
  on a non-empty list feeds on its own growth.
\<close>

datatype error = TypeError string | ValueError string | IndexError string | NonTermination

fun is_TypeError :: "error + 'a \<Rightarrow> bool" where
  "is_TypeError (Inl (TypeError m)) = True"
| "is_TypeError r = False"

fun is_ValueError :: "error + 'a \<Rightarrow> bool" where
  "is_ValueError (Inl (ValueError m)) = True"
| "is_ValueError r = False"

text \<open>Truth value of an object, as \<^verbatim>\<open>not x\<close> and \<^verbatim>\<open>x or y\<close> test it.\<close>

fun truthy :: "pyval \<Rightarrow> bool" where
  "truthy PNone = False"
| "truthy (PBool b) = b"
| "truthy (PInt i) = (i \<noteq> 0)"
| "truthy (PStr s) = (s \<noteq> [])"
| "truthy (PList xs) = (xs \<noteq> [])"

text \<open>\<^verbatim>\<open>isinstance(x, str)\<close>.\<close>

fun is_str :: "pyval \<Rightarrow> bool" where
  "is_str (PStr s) = True"
| "is_str v = False"

fun the_str :: "pyval \<Rightarrow> string" where
  "the_str (PStr s) = s"
| "the_str v = []"

text \<open>
  \<^verbatim>\<open>for word in x\<close>: a list yields its elements, a string its characters as
  one-character strings, and the other values are not iterable.
\<close>

fun py_iter :: "pyval \<Rightarrow> error + pyval list" where
  "py_iter (PList xs) = Inr xs"
| "py_iter (PStr s) = Inr (map (\<lambda>c. PStr [c]) s)"
| "py_iter v = Inl (TypeError ''object is not iterable'')"

subsection \<open>The position index\<close>

text \<open>
  \<^verbatim>\<open>word_positions: dict[int, set[str]]\<close>. A Python set is kept as the list of its
  elements in the order they were first added; the order in which the set is later
  iterated need not be the insertion order, and is a parameter \<open>set_iter\<close> of the
  table fill below.
\<close>

type_synonym word_positions = "nat \<rightharpoonup> string list"

definition set_add :: "string \<Rightarrow> string list \<Rightarrow> string list" where
  "set_add w s = (if w \<in> set s then s else s @ [w])"

text \<open>\<^verbatim>\<open>s[i:j]\<close> for \<open>0 \<le> i \<le> j\<close>: the slice stops at the end of the string.\<close>

definition slice :: "string \<Rightarrow> nat \<Rightarrow> nat \<Rightarrow> string" where
  "slice s i j = take (j - i) (drop i s)"

text \<open>
  The body of the inner loop:
  \<^verbatim>\<open>if target[i:i + word_length] == word: word_positions.setdefault(i, set()).add(word)\<close>
\<close>

definition record_match :: "string \<Rightarrow> string \<Rightarrow> word_positions \<Rightarrow> nat \<Rightarrow> word_positions" where
  "record_match target word wp i =
     (if slice target i (i + length word) = word
      then wp(i \<mapsto> set_add word (case wp i of None \<Rightarrow> [] | Some s \<Rightarrow> s))
      else wp)"

text \<open>
  \<^verbatim>\<open>range(target_length - word_length + 1)\<close>: the bound is a Python integer and may
  be zero or negative, in which case the range is empty.
\<close>

definition scan_offsets :: "string \<Rightarrow> string \<Rightarrow> nat list" where
  "scan_offsets target word = [0 ..< nat (int (length target) - int (length word) + 1)]"

text \<open>\<^verbatim>\<open>for i in range(target_length - word_length + 1)\<close> around the body above.\<close>

definition scan_word :: "string \<Rightarrow> word_positions \<Rightarrow> string \<Rightarrow> word_positions" where
  "scan_word target wp word =
     foldl (record_match target word) wp (scan_offsets target word)"

text \<open>
  \<^verbatim>\<open>for word in word_bank\<close>. The running maximum \<^verbatim>\<open>max_word_length\<close> of the source
  is never read and is left out.
\<close>

definition build_word_positions :: "string \<Rightarrow> string list \<Rightarrow> word_positions" where
  "build_word_positions target word_bank = foldl (scan_word target) Map.empty word_bank"

text \<open>\<^verbatim>\<open>word_positions.get(current_pos, ())\<close>, iterated.\<close>

definition words_at ::
  "(string list \<Rightarrow> string list) \<Rightarrow> word_positions \<Rightarrow> nat \<Rightarrow> string list" where
  "words_at set_iter wp current_pos =
     (case wp current_pos of None \<Rightarrow> [] | Some s \<Rightarrow> set_iter s)"

subsection \<open>The table\<close>

type_synonym dp_table = "string list list list"

text \<open>
  \<^verbatim>\<open>dp_table = [[] for _ in range(target_length + 1)]; dp_table[0] = [[]]\<close>
\<close>

definition init_table :: "nat \<Rightarrow> dp_table" where
  "init_table target_length = (replicate (target_length + 1) [])[0 := [[]]]"

text \<open>A for-loop over a list whose body may raise: the first error ends the loop.\<close>

primrec for_each :: "('a \<Rightarrow> 's \<Rightarrow> error + 's) \<Rightarrow> 'a list \<Rightarrow> 's \<Rightarrow> error + 's" where
  "for_each body [] s = Inr s"
| "for_each body (x # xs) s =
     (case body x s of Inl e \<Rightarrow> Inl e | Inr s' \<Rightarrow> for_each body xs s')"

text \<open>
  The body of the loop over the words of one position:
  \<^verbatim>\<open>end_pos = current_pos + len(word)\<close>
  \<^verbatim>\<open>dp_table[end_pos].extend([word, *combination] for combination in dp_table[current_pos])\<close>
  \<^verbatim>\<open>dp_table[end_pos]\<close> is read first and raises beyond the end of the table. The
  generator then reads \<^verbatim>\<open>dp_table[current_pos]\<close> while the extension goes on; when
  both are the same non-empty list the extension never ends.
\<close>

definition word_step :: "nat \<Rightarrow> string \<Rightarrow> dp_table \<Rightarrow> error + dp_table" where
  "word_step current_pos word dp =
     (let end_pos = current_pos + length word in
      if \<not> end_pos < length dp then Inl (IndexError ''list index out of range'')
      else if end_pos = current_pos \<and> dp ! current_pos \<noteq> [] then Inl NonTermination
      else Inr (dp[end_pos := dp ! end_pos @ map (\<lambda>combination. word # combination) (dp ! current_pos)]))"

text \<open>
  The body of the loop over the positions:
  \<^verbatim>\<open>if not dp_table[current_pos]: continue\<close>, then the loop over the words found at
  the position, in the iteration order of the set.
\<close>

definition position_step ::
  "(string list \<Rightarrow> string list) \<Rightarrow> word_positions \<Rightarrow> nat \<Rightarrow> dp_table \<Rightarrow> error + dp_table" where
  "position_step set_iter wp current_pos dp =
     (if \<not> current_pos < length dp then Inl (IndexError ''list index out of range'')
      else if dp ! current_pos = [] then Inr dp
      else for_each (word_step current_pos) (words_at set_iter wp current_pos) dp)"

text \<open>\<^verbatim>\<open>for current_pos in range(target_length)\<close>\<close>

definition fill_table ::
  "(string list \<Rightarrow> string list) \<Rightarrow> word_positions \<Rightarrow> nat \<Rightarrow> dp_table \<Rightarrow> error + dp_table" where
  "fill_table set_iter wp target_length dp =
     for_each (position_step set_iter wp) [0 ..< target_length] dp"

text \<open>
  Everything after the validation, for a target and a bank that are strings: the index,
  the table, and the result \<^verbatim>\<open>dp_table[target_length]\<close> with each combination reversed
  in place. The combinations of the last slot are lists of their own, so reversing them
  in place affects nothing else.
\<close>

definition construct ::
  "(string list \<Rightarrow> string list) \<Rightarrow> string \<Rightarrow> string list \<Rightarrow> error + string list list" where
  "construct set_iter target word_bank =
     (let wp = build_word_positions target word_bank;
          target_length = length target
      in case fill_table set_iter wp target_length (init_table target_length) of
           Inl e \<Rightarrow> Inl e
         | Inr dp \<Rightarrow>
             if \<not> target_length < length dp then Inl (IndexError ''list index out of range'')
             else Inr (map rev (dp ! target_length)))"

subsection \<open>The function\<close>

text \<open>
  \<^verbatim>\<open>all_construct(target, word_bank)\<close> on arbitrary arguments, with the validation in
  the order of the source. An omitted \<^verbatim>\<open>word_bank\<close> is \<open>PNone\<close>.
\<close>

definition all_construct ::
  "(string list \<Rightarrow> string list) \<Rightarrow> pyval \<Rightarrow> pyval \<Rightarrow> error + string list list" where
  "all_construct set_iter target word_bank =
     (if \<not> is_str target then Inl (TypeError ''Target must be a string'')
      else if \<not> truthy target then Inl (ValueError ''Target string cannot be empty'')
      else
        let word_bank = (if truthy word_bank then word_bank else PList []) in
        case py_iter word_bank of
          Inl e \<Rightarrow> Inl e
        | Inr ws \<Rightarrow>
            if \<not> list_all is_str ws
              then Inl (TypeError ''All elements in word_bank must be strings'')
            else if list_ex (\<lambda>word. \<not> truthy word) ws
              then Inl (ValueError ''Word bank cannot contain empty strings'')
            else construct set_iter (the_str target) (map the_str ws))"

section \<open>Vocabulary of the specification and of the proofs\<close>

text \<open>
  What is assumed of the iteration order of a Python set: iterating a set yields each of
  its elements once, in some order. Nothing else is assumed; the order may depend on the
  whole history of insertions.
\<close>

definition set_iter_ok :: "(string list \<Rightarrow> string list) \<Rightarrow> bool" where
  "set_iter_ok set_iter \<longleftrightarrow>
     (\<forall>s. distinct s \<longrightarrow> distinct (set_iter s) \<and> set (set_iter s) = set s)"

text \<open>The set stored at a position, empty when the dictionary has no such key.\<close>

definition wp_get :: "word_positions \<Rightarrow> nat \<Rightarrow> string list" where
  "wp_get wp i = (case wp i of None \<Rightarrow> [] | Some s \<Rightarrow> s)"

text \<open>A word occurs in the target at an offset, entirely inside the target.\<close>

definition matches_at :: "string \<Rightarrow> nat \<Rightarrow> string \<Rightarrow> bool" where
  "matches_at target i word \<longleftrightarrow>
     i + length word \<le> length target \<and> slice target i (i + length word) = word"

text \<open>
  The table at a point of the fill loop: after the iterations for the positions below
  \<open>current_pos\<close> and, at \<open>current_pos\<close>, after the first \<open>i\<close> words of the inner
  loop (all of them when \<open>i\<close> is at least their number). With
  \<open>current_pos < length target\<close> and \<open>i\<close> arbitrary these are all the points of the
  loop, the last iteration's end, which is the end of the loop, included.
\<close>

definition table_at ::
  "(string list \<Rightarrow> string list) \<Rightarrow> string \<Rightarrow> string list \<Rightarrow> nat \<Rightarrow> nat \<Rightarrow> error + dp_table" where
  "table_at set_iter target word_bank current_pos i =
     (let wp = build_word_positions target word_bank in
      case fill_table set_iter wp current_pos (init_table (length target)) of
        Inl e \<Rightarrow> Inl e
      | Inr dp \<Rightarrow>
          if \<not> current_pos < length dp then Inl (IndexError ''list index out of range'')
          else if dp ! current_pos = [] then Inr dp
          else for_each (word_step current_pos) (take i (words_at set_iter wp current_pos)) dp)"

text \<open>
  The order the specification describes for the result: the place of a decomposition's
  first word in the scan of the word bank (the index of its first occurrence).
\<close>

fun bank_index :: "string list \<Rightarrow> string \<Rightarrow> nat" where
  "bank_index [] w = 0"
| "bank_index (x # xs) w = (if x = w then 0 else Suc (bank_index xs w))"

definition first_word_rank :: "string list \<Rightarrow> string list \<Rightarrow> nat" where
  "first_word_rank word_bank D = bank_index word_bank (hd D)"

text \<open>The offset in the target at which the last word of a decomposition starts.\<close>

definition last_word_start :: "string \<Rightarrow> string list \<Rightarrow> nat" where
  "last_word_start target D = length target - length (last D)"

text \<open>
  The contents of slot \<open>j\<close> of the finished table, as a recursion over the slots below
  it: for each earlier position \<open>p\<close> in increasing order, when the piece of the target
  from \<open>p\<close> to \<open>j\<close> is a word of the bank \<open>B\<close>, that word put in front of every
  combination of slot \<open>p\<close>. It is a device of the proofs: the loop is shown to compute
  it, and the properties of the result are proved on it.
\<close>

function slot_ref :: "string \<Rightarrow> string set \<Rightarrow> nat \<Rightarrow> string list list" where
  "slot_ref t B j =
     (if j = 0 then [[]]
      else concat (map (\<lambda>p. if slice t p j \<in> B
                              then map (\<lambda>c. slice t p j # c) (slot_ref t B p) else [])
                       [0 ..< j]))"
  by pat_completeness auto
termination
  by (relation "measure (\<lambda>(t, B, j). j)") auto

text \<open>
  The part of \<open>slot_ref\<close> already written to slot \<open>j\<close> when the positions below \<open>p\<close>
  are done and, at position \<open>p\<close>, the words in \<open>W\<close>.
\<close>

definition contribution ::
  "string \<Rightarrow> string set \<Rightarrow> nat \<Rightarrow> string set \<Rightarrow> nat \<Rightarrow> nat \<Rightarrow> string list list" where
  "contribution t B p W j q =
     (if slice t q j \<in> B \<and> (q < p \<or> (q = p \<and> slice t q j \<in> W))
      then map (\<lambda>c. slice t q j # c) (slot_ref t B q) else [])"

definition partial_slot ::
  "string \<Rightarrow> string set \<Rightarrow> nat \<Rightarrow> string set \<Rightarrow> nat \<Rightarrow> string list list" where
  "partial_slot t B p W j =
     (if j = 0 then [[]] else concat (map (contribution t B p W j) [0 ..< j]))"

text \<open>The loop invariant of the fill.\<close>

definition table_inv :: "string \<Rightarrow> string set \<Rightarrow> nat \<Rightarrow> string set \<Rightarrow> dp_table \<Rightarrow> bool" where
  "table_inv t B p W dp \<longleftrightarrow>
     length dp = length t + 1 \<and> (\<forall>j \<le> length t. dp ! j = partial_slot t B p W j)"

declare slot_ref.simps [simp del]

section \<open>What the position index holds\<close>

lemma set_set_add: "set (set_add w s) = insert w (set s)"
  by (auto simp: set_add_def)

lemma distinct_set_add: "distinct s \<Longrightarrow> distinct (set_add w s)"
  by (simp add: set_add_def)

lemma wp_get_record_match:
  "wp_get (record_match t w wp i) k =
     (if k = i \<and> slice t i (i + length w) = w then set_add w (wp_get wp i) else wp_get wp k)"
  by (simp add: record_match_def wp_get_def)

lemma set_wp_get_foldl_record:
  "set (wp_get (foldl (record_match t w) wp ixs) k) =
     set (wp_get wp k) \<union> (if k \<in> set ixs \<and> slice t k (k + length w) = w then {w} else {})"
  by (induction ixs arbitrary: wp) (auto simp: wp_get_record_match set_set_add)

lemma distinct_wp_get_foldl_record:
  "\<forall>k. distinct (wp_get wp k) \<Longrightarrow> distinct (wp_get (foldl (record_match t w) wp ixs) k)"
proof (induction ixs arbitrary: wp)
  case Nil
  then show ?case by simp
next
  case (Cons i ixs)
  have "\<forall>k. distinct (wp_get (record_match t w wp i) k)"
    using Cons.prems by (simp add: wp_get_record_match distinct_set_add)
  then show ?case using Cons.IH by simp
qed

lemma scan_offsets_iff: "k \<in> set (scan_offsets t w) \<longleftrightarrow> k + length w \<le> length t"
  by (auto simp: scan_offsets_def)

lemma set_wp_get_scan_word:
  "set (wp_get (scan_word t wp w) k) =
     set (wp_get wp k) \<union> (if matches_at t k w then {w} else {})"
  unfolding scan_word_def set_wp_get_foldl_record scan_offsets_iff matches_at_def by simp

lemma distinct_wp_get_scan_word:
  "\<forall>k. distinct (wp_get wp k) \<Longrightarrow> distinct (wp_get (scan_word t wp w) k)"
  unfolding scan_word_def by (rule distinct_wp_get_foldl_record)

lemma set_wp_get_foldl_scan:
  "set (wp_get (foldl (scan_word t) wp wb) k) =
     set (wp_get wp k) \<union> {w \<in> set wb. matches_at t k w}"
  by (induction wb arbitrary: wp) (auto simp: set_wp_get_scan_word)

lemma distinct_wp_get_foldl_scan:
  "\<forall>k. distinct (wp_get wp k) \<Longrightarrow> distinct (wp_get (foldl (scan_word t) wp wb) k)"
proof (induction wb arbitrary: wp)
  case Nil
  then show ?case by simp
next
  case (Cons w wb)
  have "\<forall>k. distinct (wp_get (scan_word t wp w) k)"
    using Cons.prems by (simp add: distinct_wp_get_scan_word)
  then show ?case using Cons.IH by simp
qed

lemma set_wp_get_build:
  "set (wp_get (build_word_positions t wb) k) = {w \<in> set wb. matches_at t k w}"
proof -
  have "wp_get Map.empty k = []" by (simp add: wp_get_def)
  then show ?thesis
    unfolding build_word_positions_def set_wp_get_foldl_scan by simp
qed

lemma distinct_wp_get_build: "distinct (wp_get (build_word_positions t wb) k)"
  unfolding build_word_positions_def
  by (rule distinct_wp_get_foldl_scan) (simp add: wp_get_def)

lemma set_iter_ok_Nil: "set_iter_ok f \<Longrightarrow> f [] = []"
  by (auto simp: set_iter_ok_def dest: spec [of _ "[]"])

lemma words_at_wp_get: "set_iter_ok f \<Longrightarrow> words_at f wp k = f (wp_get wp k)"
  by (simp add: words_at_def wp_get_def set_iter_ok_Nil split: option.splits)

lemma set_words_at:
  "set_iter_ok f \<Longrightarrow>
     set (words_at f (build_word_positions t wb) k) = {w \<in> set wb. matches_at t k w}"
  using distinct_wp_get_build [of t wb k]
  by (simp add: words_at_wp_get set_iter_ok_def set_wp_get_build)

lemma distinct_words_at:
  "set_iter_ok f \<Longrightarrow> distinct (words_at f (build_word_positions t wb) k)"
  using distinct_wp_get_build [of t wb k]
  by (simp add: words_at_wp_get set_iter_ok_def)

section \<open>The fill loop computes the reference table\<close>

lemma length_slice: "j \<le> length t \<Longrightarrow> length (slice t q j) = j - q"
  by (simp add: slice_def)

lemma partial_slot_done: "j \<le> p \<Longrightarrow> partial_slot t B p W j = slot_ref t B j"
proof (cases "j = 0")
  case True
  then show ?thesis by (simp add: partial_slot_def slot_ref.simps [of t B 0])
next
  case False
  assume "j \<le> p"
  then have eq: "map (contribution t B p W j) [0 ..< j] =
      map (\<lambda>q. if slice t q j \<in> B then map (\<lambda>c. slice t q j # c) (slot_ref t B q) else [])
        [0 ..< j]"
    by (intro map_cong) (auto simp: contribution_def)
  show ?thesis
    unfolding partial_slot_def slot_ref.simps [of t B j] eq by (rule refl)
qed

lemma concat_map_Nil: "(\<And>x. x \<in> set xs \<Longrightarrow> g x = []) \<Longrightarrow> concat (map g xs) = []"
  by (induction xs) auto

lemma concat_map_upt_change:
  assumes "p < j" and "\<And>q. q < p \<Longrightarrow> g' q = g q" and "g p = []"
    and "\<And>q. p < q \<Longrightarrow> q < j \<Longrightarrow> g' q = [] \<and> g q = []"
  shows "concat (map g' [0 ..< j]) = concat (map g [0 ..< j]) @ g' p"
proof -
  have split: "[0 ..< j] = [0 ..< p] @ [p] @ [Suc p ..< j]"
  proof -
    have "[0 ..< j] = [0 ..< p] @ [p ..< j]"
      using assms(1) upt_add_eq_append [of 0 p "j - p"] by simp
    also have "[p ..< j] = p # [Suc p ..< j]"
      using assms(1) by (rule upt_conv_Cons)
    finally show ?thesis by simp
  qed
  have "map g' [0 ..< p] = map g [0 ..< p]"
    using assms(2) by simp
  then have a: "concat (map g' [0 ..< p]) = concat (map g [0 ..< p])"
    by (rule arg_cong)
  have b: "concat (map g' [Suc p ..< j]) = []" "concat (map g [Suc p ..< j]) = []"
    using assms(4) by (auto intro!: concat_map_Nil)
  show ?thesis
    unfolding split by (simp add: a b assms(3))
qed

lemma init_table_inv: "table_inv t B 0 {} (init_table (length t))"
  by (auto simp: table_inv_def init_table_def partial_slot_def contribution_def nth_list_update
      intro!: concat_map_Nil [symmetric])

lemma slice_match_length:
  assumes "matches_at t p w" and "j \<le> length t" and "p < j" and "slice t p j = w"
  shows "j = p + length w"
  using assms length_slice [of j t p] by (simp add: matches_at_def)

lemma contribution_insert_other:
  assumes "matches_at t p w" and "j \<le> length t" and "j \<noteq> p + length w" and "q < j"
  shows "contribution t B p (insert w W) j q = contribution t B p W j q"
proof (cases "q = p")
  case True
  then have "slice t q j \<noteq> w"
    using assms slice_match_length [of t p w j] by auto
  then show ?thesis by (simp add: contribution_def)
next
  case False
  then show ?thesis by (simp add: contribution_def)
qed

lemma partial_slot_insert_other:
  assumes "matches_at t p w" and "j \<le> length t" and "j \<noteq> p + length w"
  shows "partial_slot t B p (insert w W) j = partial_slot t B p W j"
proof -
  have "map (contribution t B p (insert w W) j) [0 ..< j] = map (contribution t B p W j) [0 ..< j]"
    using assms by (intro map_cong) (auto simp: contribution_insert_other)
  then show ?thesis
    unfolding partial_slot_def by (rule arg_cong)
qed

lemma partial_slot_insert_end:
  assumes "matches_at t p w" and "w \<noteq> []" and "w \<in> B" and "w \<notin> W"
  shows "partial_slot t B p (insert w W) (p + length w) =
           partial_slot t B p W (p + length w) @ map (\<lambda>c. w # c) (slot_ref t B p)"
proof -
  let ?e = "p + length w"
  have sl: "slice t p ?e = w"
    using assms(1) by (simp add: matches_at_def)
  have pos: "p < ?e" "?e \<noteq> 0"
    using assms(2) by simp_all
  have "concat (map (contribution t B p (insert w W) ?e) [0 ..< ?e]) =
        concat (map (contribution t B p W ?e) [0 ..< ?e]) @ contribution t B p (insert w W) ?e p"
  proof (rule concat_map_upt_change)
    show "p < ?e" by (rule pos)
    show "contribution t B p W ?e p = []"
      using assms(4) sl by (simp add: contribution_def)
  qed (simp_all add: contribution_def)
  moreover have "contribution t B p (insert w W) ?e p = map (\<lambda>c. w # c) (slot_ref t B p)"
    using assms(3) sl by (simp add: contribution_def)
  ultimately show ?thesis
    using pos by (simp add: partial_slot_def)
qed

lemma word_step_inv:
  assumes inv: "table_inv t B p W dp"
    and m: "matches_at t p w" and ne: "w \<noteq> []" and inB: "w \<in> B" and new: "w \<notin> W"
  shows "\<exists>dp'. word_step p w dp = Inr dp' \<and> table_inv t B p (insert w W) dp'"
proof -
  let ?e = "p + length w"
  let ?dp' = "dp[?e := dp ! ?e @ map (\<lambda>c. w # c) (dp ! p)]"
  have len: "length dp = length t + 1" and slots: "\<And>j. j \<le> length t \<Longrightarrow> dp ! j = partial_slot t B p W j"
    using inv by (simp_all add: table_inv_def)
  have e: "?e \<le> length t" "?e \<noteq> p"
    using m ne by (simp_all add: matches_at_def)
  have step: "word_step p w dp = Inr ?dp'"
    using e len by (simp add: word_step_def Let_def)
  have p: "dp ! p = slot_ref t B p"
    using e slots [of p] by (simp add: partial_slot_done)
  have "?dp' ! j = partial_slot t B p (insert w W) j" if "j \<le> length t" for j
  proof (cases "j = ?e")
    case True
    then show ?thesis
      using len e slots [of ?e] p partial_slot_insert_end [OF m ne inB new] by simp
  next
    case False
    then show ?thesis
      using that slots [of j] partial_slot_insert_other [OF m that False] by simp
  qed
  then have "table_inv t B p (insert w W) ?dp'"
    using len by (simp add: table_inv_def)
  with step show ?thesis by blast
qed

lemma for_each_word_step_inv:
  assumes "table_inv t B p W dp" and "\<forall>w \<in> set ws. w \<in> B \<and> w \<noteq> [] \<and> matches_at t p w"
    and "distinct ws" and "set ws \<inter> W = {}"
  shows "\<exists>dp'. for_each (word_step p) ws dp = Inr dp' \<and> table_inv t B p (W \<union> set ws) dp'"
  using assms
proof (induction ws arbitrary: W dp)
  case Nil
  then show ?case by simp
next
  case (Cons w ws)
  from Cons.prems obtain dp1 where
    s1: "word_step p w dp = Inr dp1" and i1: "table_inv t B p (insert w W) dp1"
    using word_step_inv [of t B p W dp w] by auto
  have "\<exists>dp'. for_each (word_step p) ws dp1 = Inr dp' \<and> table_inv t B p (insert w W \<union> set ws) dp'"
    using Cons.prems by (intro Cons.IH [OF i1]) auto
  then show ?case using s1 by simp
qed

lemma for_each_append:
  "for_each body (xs @ ys) s =
     (case for_each body xs s of Inl e \<Rightarrow> Inl e | Inr s' \<Rightarrow> for_each body ys s')"
  by (induction xs arbitrary: s) (auto split: sum.splits)

lemma matches_at_slice: "q < j \<Longrightarrow> j \<le> length t \<Longrightarrow> matches_at t q (slice t q j)"
  by (simp add: matches_at_def slice_def)

lemma partial_slot_next:
  assumes "j \<le> length t"
    and "slot_ref t B p = [] \<or> W = {w \<in> B. matches_at t p w}"
  shows "partial_slot t B p W j = partial_slot t B (Suc p) {} j"
proof -
  have "contribution t B p W j q = contribution t B (Suc p) {} j q" if "q < j" for q
  proof (cases "q = p")
    case True
    then show ?thesis
      using assms that matches_at_slice [of p j t] by (auto simp: contribution_def)
  next
    case False
    then show ?thesis by (auto simp: contribution_def)
  qed
  then have "map (contribution t B p W j) [0 ..< j] = map (contribution t B (Suc p) {} j) [0 ..< j]"
    by (intro map_cong) auto
  then show ?thesis
    unfolding partial_slot_def by (rule arg_cong)
qed

lemma position_step_inv:
  assumes inv: "table_inv t (set wb) p {} dp" and p: "p < length t"
    and ok: "set_iter_ok f" and ne: "[] \<notin> set wb"
  shows "\<exists>dp'. position_step f (build_word_positions t wb) p dp = Inr dp'
           \<and> table_inv t (set wb) (Suc p) {} dp'"
proof -
  let ?ws = "words_at f (build_word_positions t wb) p"
  have len: "length dp = length t + 1"
    using inv by (simp add: table_inv_def)
  have dpp: "dp ! p = slot_ref t (set wb) p"
    using inv p by (simp add: table_inv_def partial_slot_done)
  show ?thesis
  proof (cases "dp ! p = []")
    case True
    then have "table_inv t (set wb) (Suc p) {} dp"
      using inv dpp partial_slot_next [of _ t "set wb" p "{}"] by (simp add: table_inv_def)
    then show ?thesis
      using True len p by (simp add: position_step_def)
  next
    case False
    have ws: "set ?ws = {w \<in> set wb. matches_at t p w}" "distinct ?ws"
      using ok by (simp_all add: set_words_at distinct_words_at)
    then have "\<forall>w \<in> set ?ws. w \<in> set wb \<and> w \<noteq> [] \<and> matches_at t p w"
      using ne by auto
    then obtain dp' where
      run: "for_each (word_step p) ?ws dp = Inr dp'" and i: "table_inv t (set wb) p ({} \<union> set ?ws) dp'"
      using for_each_word_step_inv [OF inv _ ws(2)] by blast
    have "table_inv t (set wb) (Suc p) {} dp'"
      using i ws(1) partial_slot_next [of _ t "set wb" p "set ?ws"] by (simp add: table_inv_def)
    then show ?thesis
      using False len p run by (simp add: position_step_def)
  qed
qed

lemma fill_table_inv:
  assumes ok: "set_iter_ok f" and ne: "[] \<notin> set wb" and k: "k \<le> length t"
  shows "\<exists>dp. fill_table f (build_word_positions t wb) k (init_table (length t)) = Inr dp
           \<and> table_inv t (set wb) k {} dp"
  using k
proof (induction k)
  case 0
  then show ?case by (simp add: fill_table_def init_table_inv)
next
  case (Suc k)
  then obtain dp where
    run: "fill_table f (build_word_positions t wb) k (init_table (length t)) = Inr dp"
    and inv: "table_inv t (set wb) k {} dp"
    by auto
  from Suc.prems have "k < length t" by simp
  from position_step_inv [OF inv this ok ne] run show ?case
    by (auto simp: fill_table_def for_each_append)
qed

lemma construct_eq:
  assumes "set_iter_ok f" and "[] \<notin> set wb"
  shows "construct f t wb = Inr (map rev (slot_ref t (set wb) (length t)))"
proof -
  obtain dp where
    run: "fill_table f (build_word_positions t wb) (length t) (init_table (length t)) = Inr dp"
    and inv: "table_inv t (set wb) (length t) {} dp"
    using fill_table_inv [OF assms, of "length t" t] by auto
  have "dp ! length t = slot_ref t (set wb) (length t)"
    using inv by (simp add: table_inv_def partial_slot_done)
  moreover have "length t < length dp"
    using inv by (simp add: table_inv_def)
  ultimately show ?thesis
    using run by (simp add: construct_def)
qed

lemma table_at_inv:
  assumes ok: "set_iter_ok f" and ne: "[] \<notin> set wb" and k: "k < length t"
  shows "\<exists>dp W. table_at f t wb k i = Inr dp \<and> table_inv t (set wb) k W dp"
proof -
  let ?wp = "build_word_positions t wb"
  let ?ws = "take i (words_at f ?wp k)"
  obtain dp0 where
    run: "fill_table f ?wp k (init_table (length t)) = Inr dp0"
    and inv: "table_inv t (set wb) k {} dp0"
    using fill_table_inv [OF ok ne, of k t] k by auto
  have len: "k < length dp0"
    using inv k by (simp add: table_inv_def)
  show ?thesis
  proof (cases "dp0 ! k = []")
    case True
    with run inv len show ?thesis
      by (auto simp: table_at_def)
  next
    case False
    have "set ?ws \<subseteq> {w \<in> set wb. matches_at t k w}"
      using set_words_at [OF ok, of t wb k] set_take_subset [of i "words_at f ?wp k"] by simp
    then have a: "\<forall>w \<in> set ?ws. w \<in> set wb \<and> w \<noteq> [] \<and> matches_at t k w"
      using ne by auto
    have b: "distinct ?ws"
      using distinct_words_at [OF ok, of t wb k] by simp
    obtain dp where "for_each (word_step k) ?ws dp0 = Inr dp"
      and "table_inv t (set wb) k ({} \<union> set ?ws) dp"
      using for_each_word_step_inv [OF inv a b] by auto
    with run False len show ?thesis
      by (auto simp: table_at_def)
  qed
qed

section \<open>Properties of the reference table\<close>

lemma slot_ref_0: "slot_ref t B 0 = [[]]"
  by (simp add: slot_ref.simps [of t B 0])

lemma in_slot_ref_iff:
  "0 < j \<Longrightarrow> c \<in> set (slot_ref t B j) \<longleftrightarrow>
     (\<exists>q < j. slice t q j \<in> B \<and> (\<exists>c' \<in> set (slot_ref t B q). c = slice t q j # c'))"
  by (subst slot_ref.simps) (auto split: if_splits)

lemma partial_slot_subset:
  "c \<in> set (partial_slot t B p W j) \<Longrightarrow> c \<in> set (slot_ref t B j)"
proof (cases "j = 0")
  case True
  assume "c \<in> set (partial_slot t B p W j)"
  with True show ?thesis by (simp add: partial_slot_def slot_ref_0)
next
  case False
  assume "c \<in> set (partial_slot t B p W j)"
  with False obtain q where "q < j" "c \<in> set (contribution t B p W j q)"
    by (auto simp: partial_slot_def)
  with False show ?thesis
    by (auto simp: in_slot_ref_iff contribution_def split: if_splits)
qed

lemma take_slice: "q \<le> j \<Longrightarrow> take q t @ slice t q j = take j t"
  using take_add [of q "j - q" t] by (simp add: slice_def)

lemma slot_ref_sound:
  "j \<le> length t \<Longrightarrow> c \<in> set (slot_ref t B j) \<Longrightarrow> concat (rev c) = take j t \<and> set c \<subseteq> B"
proof (induction j arbitrary: c rule: less_induct)
  case (less j)
  show ?case
  proof (cases "j = 0")
    case True
    with less.prems show ?thesis by (simp add: slot_ref_0)
  next
    case False
    with less.prems obtain q c' where
      q: "q < j" "slice t q j \<in> B" "c' \<in> set (slot_ref t B q)" "c = slice t q j # c'"
      by (auto simp: in_slot_ref_iff)
    have "concat (rev c') = take q t \<and> set c' \<subseteq> B"
      using less.IH [of q c'] q less.prems by simp
    then show ?thesis
      using q take_slice [of q j t] by simp
  qed
qed

lemma slot_ref_complete:
  "[] \<notin> B \<Longrightarrow> j \<le> length t \<Longrightarrow> set D \<subseteq> B \<Longrightarrow> concat D = take j t
     \<Longrightarrow> rev D \<in> set (slot_ref t B j)"
proof (induction D arbitrary: j rule: rev_induct)
  case Nil
  then have "j = 0" by auto
  then show ?case by (simp add: slot_ref_0)
next
  case (snoc w D)
  let ?q = "length (concat D)"
  have w: "w \<in> B" "w \<noteq> []"
    using snoc.prems by auto
  have eq: "concat D @ w = take j t"
    using snoc.prems by simp
  then have "length (concat D @ w) = j"
    using snoc.prems(2) by simp
  then have j: "j = ?q + length w" by simp
  then have q: "?q < j" "?q \<le> length t"
    using w snoc.prems(2) by simp_all
  have "take ?q (concat D @ w) = take ?q (take j t)"
    using eq by simp
  then have D: "concat D = take ?q t"
    using q by (simp add: min_def)
  have "drop ?q (concat D @ w) = drop ?q (take j t)"
    using eq by simp
  then have sl: "w = slice t ?q j"
    by (simp add: slice_def drop_take)
  have "rev D \<in> set (slot_ref t B ?q)"
    using snoc.prems D q by (intro snoc.IH) auto
  then show ?case
    using q w sl by (auto simp: in_slot_ref_iff)
qed

lemma distinct_concat_upt:
  assumes "\<And>q. q < m \<Longrightarrow> distinct (g q)"
    and "\<And>q q'. q < q' \<Longrightarrow> q' < m \<Longrightarrow> set (g q) \<inter> set (g q') = {}"
  shows "distinct (concat (map g [0 ..< m]))"
  using assms
proof (induction m)
  case 0
  then show ?case by simp
next
  case (Suc m)
  have "distinct (concat (map g [0 ..< m]))"
    using Suc.prems by (intro Suc.IH) auto
  moreover have "set (concat (map g [0 ..< m])) \<inter> set (g m) = {}"
  proof -
    have "set (g q) \<inter> set (g m) = {}" if "q < m" for q
      using Suc.prems(2) [of q m] that by simp
    then show ?thesis by fastforce
  qed
  ultimately show ?case
    using Suc.prems(1) [of m] by simp
qed

lemma slot_ref_distinct: "j \<le> length t \<Longrightarrow> distinct (slot_ref t B j)"
proof (induction j rule: less_induct)
  case (less j)
  show ?case
  proof (cases "j = 0")
    case True
    then show ?thesis by (simp add: slot_ref_0)
  next
    case False
    let ?g = "\<lambda>p. if slice t p j \<in> B
                  then map (\<lambda>c. slice t p j # c) (slot_ref t B p) else []"
    have "distinct (concat (map ?g [0 ..< j]))"
    proof (rule distinct_concat_upt)
      fix q assume "q < j"
      then have "distinct (slot_ref t B q)"
        using less by simp
      then show "distinct (?g q)"
        by (simp add: distinct_map inj_on_def)
    next
      fix q q' assume "q < q'" "q' < j"
      then have "length (slice t q j) \<noteq> length (slice t q' j)"
        using less.prems by (simp add: length_slice)
      then have "slice t q j \<noteq> slice t q' j" by auto
      then show "set (?g q) \<inter> set (?g q') = {}" by auto
    qed
    with False show ?thesis
      by (subst slot_ref.simps) simp
  qed
qed

lemma sorted_map_const: "\<forall>x \<in> set xs. key x = (m::nat) \<Longrightarrow> sorted (map key xs)"
  by (induction xs) auto

lemma sorted_concat_upt:
  fixes key :: "'a \<Rightarrow> nat"
  assumes "\<And>q c. q < m \<Longrightarrow> c \<in> set (g q) \<Longrightarrow> key c = q"
  shows "sorted (map key (concat (map g [0 ..< m])))"
  using assms
proof (induction m)
  case 0
  then show ?case by simp
next
  case (Suc m)
  have "sorted (map key (concat (map g [0 ..< m])))"
    using Suc.prems by (intro Suc.IH) auto
  moreover have gm: "\<forall>c \<in> set (g m). key c = m"
    using Suc.prems [of m] by simp
  moreover have "sorted (map key (g m))"
    using gm by (rule sorted_map_const)
  moreover have "\<forall>c \<in> set (concat (map g [0 ..< m])). key c < m"
  proof
    fix c assume "c \<in> set (concat (map g [0 ..< m]))"
    then obtain q where "q < m" "c \<in> set (g q)" by auto
    then show "key c < m"
      using Suc.prems [of q c] by simp
  qed
  ultimately have "sorted (map key (concat (map g [0 ..< m]) @ g m))"
    unfolding map_append sorted_append by (simp add: less_imp_le)
  then show ?case by simp
qed

lemma slot_ref_sorted:
  assumes "j \<le> length t"
  shows "sorted (map (\<lambda>c. j - length (hd c)) (slot_ref t B j))"
proof (cases "j = 0")
  case True
  then show ?thesis by (simp add: slot_ref_0)
next
  case False
  let ?g = "\<lambda>p. if slice t p j \<in> B
                then map (\<lambda>c. slice t p j # c) (slot_ref t B p) else []"
  have "sorted (map (\<lambda>c. j - length (hd c)) (concat (map ?g [0 ..< j])))"
  proof (rule sorted_concat_upt)
    fix q c assume "q < j" "c \<in> set (?g q)"
    then show "j - length (hd c) = q"
      using assms by (auto simp: length_slice split: if_splits)
  qed
  with False show ?thesis
    by (subst slot_ref.simps) simp
qed

lemma count_list_distinct: "distinct xs \<Longrightarrow> x \<in> set xs \<Longrightarrow> count_list xs x = 1"
  by (induction xs) auto

lemma length_concat_rev: "length (concat (rev c)) = length (concat c)"
  by (simp add: length_concat rev_map [symmetric])

lemma length_le_concat: "[] \<notin> set D \<Longrightarrow> length D \<le> length (concat D)"
proof (induction D)
  case Nil
  then show ?case by simp
next
  case (Cons w D)
  then have "1 \<le> length w" "length D \<le> length (concat D)"
    by (cases w, auto)
  then show ?case by simp
qed

lemma decomposition_length:
  assumes "[] \<notin> set D" and "concat D \<noteq> []"
  shows "1 \<le> length D \<and> length D \<le> length (concat D)"
proof -
  have "D \<noteq> []"
    using assms(2) by auto
  then have "1 \<le> length D"
    by (cases D) simp_all
  then show ?thesis
    using length_le_concat [OF assms(1)] by simp
qed

section \<open>The function on validated arguments\<close>

lemma all_construct_strings:
  assumes "t \<noteq> []" and "[] \<notin> set wb"
  shows "all_construct f (PStr t) (PList (map PStr wb)) = construct f t wb"
proof -
  have "list_all is_str (map PStr wb)"
    by (simp add: list_all_iff)
  moreover have "\<not> list_ex (\<lambda>word. \<not> truthy word) (map PStr wb)"
    using assms(2) by (auto simp: list_ex_iff)
  moreover have "map the_str (map PStr wb) = wb"
    by (simp add: comp_def)
  ultimately show ?thesis
    using assms(1) by (cases wb) (simp_all add: all_construct_def)
qed

lemma all_construct_ref:
  assumes "set_iter_ok f" and "t \<noteq> []" and "[] \<notin> set wb"
  shows "all_construct f (PStr t) (PList (map PStr wb)) =
           Inr (map rev (slot_ref t (set wb) (length t)))"
  using assms by (simp add: all_construct_strings construct_eq)

lemma construct_total:
  "set_iter_ok f \<Longrightarrow> [] \<notin> set wb \<Longrightarrow> \<exists>r. construct f t wb = Inr r"
  by (simp add: construct_eq)

lemma bank_strings:
  assumes "\<forall>w \<in> set ws. is_str w" and "PStr [] \<notin> set ws"
  shows "[] \<notin> set (map the_str ws)"
proof
  assume "[] \<in> set (map the_str ws)"
  then obtain w where w: "w \<in> set ws" "the_str w = []" by auto
  with assms(1) have "w = PStr []" by (cases w) auto
  with w assms(2) show False by simp
qed

lemma falsy_string: "is_str w \<Longrightarrow> \<not> truthy w \<longleftrightarrow> w = PStr []"
  by (cases w) auto

lemma bank_has_empty:
  "\<forall>w \<in> set ws. is_str w \<Longrightarrow> list_ex (\<lambda>word. \<not> truthy word) ws \<longleftrightarrow> PStr [] \<in> set ws"
  by (auto simp: list_ex_iff falsy_string)

lemma all_construct_list:
  "all_construct f (PStr t) (PList ws) =
     (if t = [] then Inl (ValueError ''Target string cannot be empty'')
      else if \<not> list_all is_str ws
        then Inl (TypeError ''All elements in word_bank must be strings'')
      else if list_ex (\<lambda>word. \<not> truthy word) ws
        then Inl (ValueError ''Word bank cannot contain empty strings'')
      else construct f t (map the_str ws))"
  by (cases ws) (simp_all add: all_construct_def)

lemma for_each_unchanged:
  "(\<And>x. x \<in> set xs \<Longrightarrow> body x s = Inr s) \<Longrightarrow> for_each body xs s = Inr s"
  by (induction xs) auto

lemma construct_empty_bank:
  assumes "t \<noteq> []"
  shows "construct f t [] = Inr []"
proof -
  let ?n = "length t"
  have "position_step f Map.empty p (init_table ?n) = Inr (init_table ?n)" if "p \<in> set [0 ..< ?n]" for p
    using that by (simp add: position_step_def words_at_def init_table_def)
  then have "fill_table f Map.empty ?n (init_table ?n) = Inr (init_table ?n)"
    unfolding fill_table_def by (rule for_each_unchanged)
  moreover have "init_table ?n ! ?n = []" and "?n < length (init_table ?n)"
    using assms by (simp_all add: init_table_def)
  ultimately show ?thesis
    by (simp add: construct_def build_word_positions_def)
qed

section \<open>The claims\<close>

text \<open>
  In the theorems below a valid target is a non-empty string \<open>t\<close>, passed as \<open>PStr t\<close>,
  and a valid word bank is a list \<open>wb\<close> of non-empty strings, passed as
  \<open>PList (map PStr wb)\<close>. They hold for every iteration order \<open>set_iter\<close> of the sets
  of the position index.
\<close>

subsection \<open>C1: soundness\<close>

text \<open>
  Claim C1. For a valid target \<open>t\<close> and a valid word bank \<open>wb\<close>, \<open>all_construct\<close>
  returns a list of decompositions, and each decomposition \<open>D\<close> in it concatenates to
  exactly \<open>t\<close> and consists of words of \<open>wb\<close>.
\<close>

theorem all_construct_sound:
  assumes "set_iter_ok set_iter" and "t \<noteq> []" and "[] \<notin> set wb"
  shows "\<exists>r. all_construct set_iter (PStr t) (PList (map PStr wb)) = Inr r
           \<and> (\<forall>D \<in> set r. concat D = t \<and> set D \<subseteq> set wb)"
proof -
  have "concat (rev c) = t \<and> set (rev c) \<subseteq> set wb"
    if "c \<in> set (slot_ref t (set wb) (length t))" for c
    using slot_ref_sound [of "length t" t c "set wb"] that by simp
  then show ?thesis
    unfolding all_construct_ref [OF assms] by auto
qed

text \<open>The theorem at the target \<open>''ab''\<close> and the bank \<open>[''a'', ''b'', ''ab'']\<close>.\<close>

theorem all_construct_sound_witness:
  "set_iter_ok id \<and> ''ab'' \<noteq> [] \<and> [] \<notin> set [''a'', ''b'', ''ab'']
     \<and> (\<exists>r. all_construct id (PStr ''ab'') (PList (map PStr [''a'', ''b'', ''ab''])) = Inr r
           \<and> (\<forall>D \<in> set r. concat D = ''ab'' \<and> set D \<subseteq> set [''a'', ''b'', ''ab'']))"
  using all_construct_sound [of id "''ab''" "[''a'', ''b'', ''ab'']"]
  by (simp add: set_iter_ok_def)

subsection \<open>C2: completeness, without duplicates\<close>

text \<open>
  Claim C2. For a valid target \<open>t\<close> and a valid word bank \<open>wb\<close>, every sequence \<open>D\<close> of
  words of \<open>wb\<close> whose concatenation is \<open>t\<close> occurs exactly once in the result of
  \<open>all_construct\<close>, whether or not \<open>wb\<close> repeats words.
\<close>

theorem all_construct_complete:
  assumes "set_iter_ok set_iter" and "t \<noteq> []" and "[] \<notin> set wb"
  shows "\<exists>r. all_construct set_iter (PStr t) (PList (map PStr wb)) = Inr r
           \<and> (\<forall>D. set D \<subseteq> set wb \<and> concat D = t \<longrightarrow> count_list r D = 1)"
proof -
  let ?r = "map rev (slot_ref t (set wb) (length t))"
  have d: "distinct ?r"
    by (simp add: distinct_map slot_ref_distinct)
  have "D \<in> set ?r" if "set D \<subseteq> set wb" "concat D = t" for D
  proof -
    have "rev D \<in> set (slot_ref t (set wb) (length t))"
      using that assms(3) by (intro slot_ref_complete) simp_all
    then have "rev (rev D) \<in> set ?r"
      unfolding set_map by (rule imageI)
    then show ?thesis by simp
  qed
  then have "\<forall>D. set D \<subseteq> set wb \<and> concat D = t \<longrightarrow> count_list ?r D = 1"
    using d by (simp add: count_list_distinct)
  then show ?thesis
    unfolding all_construct_ref [OF assms] by simp
qed

text \<open>The theorem at a bank that holds the word \<open>''a''\<close> twice.\<close>

theorem all_construct_complete_witness:
  "set_iter_ok id \<and> ''ab'' \<noteq> [] \<and> [] \<notin> set [''a'', ''b'', ''a'']
     \<and> set [''a'', ''b''] \<subseteq> set [''a'', ''b'', ''a''] \<and> concat [''a'', ''b''] = ''ab''
     \<and> (\<exists>r. all_construct id (PStr ''ab'') (PList (map PStr [''a'', ''b'', ''a''])) = Inr r
           \<and> count_list r [''a'', ''b''] = 1)"
proof -
  have ok: "set_iter_ok id"
    by (simp add: set_iter_ok_def)
  obtain r where
    r: "all_construct id (PStr ''ab'') (PList (map PStr [''a'', ''b'', ''a''])) = Inr r"
    and once: "\<forall>D. set D \<subseteq> set [''a'', ''b'', ''a''] \<and> concat D = ''ab'' \<longrightarrow> count_list r D = 1"
    using all_construct_complete [OF ok, of "''ab''" "[''a'', ''b'', ''a'']"] by auto
  from once have "count_list r [''a'', ''b''] = 1"
    by simp
  with ok r show ?thesis by simp
qed

subsection \<open>C3: which error is raised\<close>

text \<open>
  Claim C3, amended. The four checks are made in the order of the source and the first
  that fails decides the error. With a list \<open>ws\<close> of arbitrary values as word bank:
  a \<open>TypeError\<close> is raised exactly when the target is not a string, or the target is a
  non-empty string and some element of the bank is not a string; a \<open>ValueError\<close> is
  raised exactly when the target is the empty string, or the target is a string, every
  element of the bank is a string and one of them is empty; and a result is returned,
  with no error of any kind, exactly when the target is a non-empty string and every
  element of the bank is a non-empty string. So an invalid argument never yields a
  result.
\<close>

theorem all_construct_raises:
  assumes "set_iter_ok set_iter"
  shows "(is_TypeError (all_construct set_iter target (PList ws)) \<longleftrightarrow>
            \<not> is_str target \<or> (target \<noteq> PStr [] \<and> (\<exists>w \<in> set ws. \<not> is_str w)))
       \<and> (is_ValueError (all_construct set_iter target (PList ws)) \<longleftrightarrow>
            target = PStr [] \<or> (is_str target \<and> (\<forall>w \<in> set ws. is_str w) \<and> PStr [] \<in> set ws))
       \<and> ((\<exists>r. all_construct set_iter target (PList ws) = Inr r) \<longleftrightarrow>
            is_str target \<and> target \<noteq> PStr [] \<and> (\<forall>w \<in> set ws. is_str w) \<and> PStr [] \<notin> set ws)"
proof (cases "is_str target")
  case False
  then show ?thesis by (auto simp: all_construct_def)
next
  case True
  then obtain t where t: "target = PStr t" by (cases target) auto
  show ?thesis
  proof (cases "t \<noteq> [] \<and> (\<forall>w \<in> set ws. is_str w) \<and> PStr [] \<notin> set ws")
    case True
    then have "[] \<notin> set (map the_str ws)"
      by (intro bank_strings) simp_all
    then obtain r where "construct set_iter t (map the_str ws) = Inr r"
      using construct_total [OF assms] by blast
    with True show ?thesis
      by (simp add: t all_construct_list bank_has_empty list_all_iff)
  next
    case False
    then show ?thesis
      by (auto simp: t all_construct_list bank_has_empty list_all_iff)
  qed
qed

text \<open>
  The theorem at a bank with a non-string and an empty string (the type check comes
  first), at an empty target, and at valid arguments.
\<close>

theorem all_construct_raises_witness:
  "set_iter_ok id
     \<and> is_TypeError (all_construct id (PStr ''a'') (PList [PInt 1, PStr '''']))
     \<and> \<not> is_ValueError (all_construct id (PStr ''a'') (PList [PInt 1, PStr '''']))
     \<and> is_ValueError (all_construct id (PStr '''') (PList [PInt 1]))
     \<and> (\<exists>r. all_construct id (PStr ''a'') (PList [PStr ''a'']) = Inr r)"
proof -
  have ok: "set_iter_ok id"
    by (simp add: set_iter_ok_def)
  show ?thesis
    using ok all_construct_raises [OF ok, of "PStr ''a''" "[PInt 1, PStr '''']"]
      all_construct_raises [OF ok, of "PStr ''''" "[PInt 1]"]
      all_construct_raises [OF ok, of "PStr ''a''" "[PStr ''a'']"]
    by simp
qed

text \<open>
  Claim C3 as it is stated fails. It asks for a \<open>TypeError\<close> whenever some element of
  the bank is not a string: with the empty target and the bank \<open>[1]\<close> the source raises
  \<open>ValueError\<close> for the target first. It asks for a \<open>ValueError\<close> whenever the bank
  holds an empty string: with the target \<open>123\<close> and a bank of one empty string the
  source raises \<open>TypeError\<close> for the target first.
\<close>

theorem all_construct_raises_counterexample:
  "\<not> is_str (PInt 1)
     \<and> \<not> is_TypeError (all_construct id (PStr '''') (PList [PInt 1]))
     \<and> is_ValueError (all_construct id (PStr '''') (PList [PInt 1]))
     \<and> PStr '''' \<in> set [PStr '''']
     \<and> \<not> is_ValueError (all_construct id (PInt 123) (PList [PStr '''']))
     \<and> is_TypeError (all_construct id (PInt 123) (PList [PStr '''']))"
  by (simp add: all_construct_def)

subsection \<open>C4: a target that cannot be built\<close>

text \<open>
  Claim C4. For a valid target \<open>t\<close> and a valid word bank \<open>wb\<close>, when no sequence of
  words of \<open>wb\<close> concatenates to \<open>t\<close> the function returns the empty list, and it does so
  in particular for the empty bank; no error is raised.
\<close>

theorem all_construct_unconstructible:
  assumes "set_iter_ok set_iter" and "t \<noteq> []" and "[] \<notin> set wb"
  shows "((\<nexists>D. set D \<subseteq> set wb \<and> concat D = t) \<longrightarrow>
            all_construct set_iter (PStr t) (PList (map PStr wb)) = Inr [])
       \<and> all_construct set_iter (PStr t) (PList []) = Inr []"
proof -
  have "slot_ref t (set wb) (length t) = []" if none: "\<nexists>D. set D \<subseteq> set wb \<and> concat D = t"
  proof (rule ccontr)
    assume "slot_ref t (set wb) (length t) \<noteq> []"
    then obtain c where "c \<in> set (slot_ref t (set wb) (length t))"
      by (cases "slot_ref t (set wb) (length t)") auto
    then have "concat (rev c) = t \<and> set (rev c) \<subseteq> set wb"
      using slot_ref_sound [of "length t" t c "set wb"] by simp
    with none show False by blast
  qed
  moreover have "all_construct set_iter (PStr t) (PList []) = Inr []"
    using assms(2) by (simp add: all_construct_list construct_empty_bank)
  ultimately show ?thesis
    unfolding all_construct_ref [OF assms] by simp
qed

text \<open>The theorem at the target \<open>''a''\<close> and the bank \<open>[''b'']\<close>.\<close>

theorem all_construct_unconstructible_witness:
  "set_iter_ok id \<and> ''a'' \<noteq> [] \<and> [] \<notin> set [''b'']
     \<and> (\<nexists>D. set D \<subseteq> set [''b''] \<and> concat D = ''a'')
     \<and> all_construct id (PStr ''a'') (PList (map PStr [''b''])) = Inr []
     \<and> all_construct id (PStr ''a'') (PList []) = Inr []"
proof -
  have ok: "set_iter_ok id"
    by (simp add: set_iter_ok_def)
  have none: "\<nexists>D. set D \<subseteq> set [''b''] \<and> concat D = ''a''"
  proof
    assume "\<exists>D. set D \<subseteq> set [''b''] \<and> concat D = ''a''"
    then obtain D where D: "set D \<subseteq> set [''b'']" "concat D = ''a''" by blast
    then show False by (cases D) auto
  qed
  show ?thesis
    using ok none all_construct_unconstructible [OF ok, of "''a''" "[''b'']"] by simp
qed

subsection \<open>C5: invariants of the table\<close>

text \<open>
  Claim C5, amended. On valid arguments, at every point of the fill loop the table has
  \<open>length t + 1\<close> slots, slot \<open>0\<close> holds the empty combination and nothing else, and
  every combination \<open>c\<close> stored in a slot \<open>k\<close> holds its words last word first: the
  words of \<open>c\<close> in reverse order concatenate to the first \<open>k\<close> characters of the
  target, and their lengths add up to \<open>k\<close>.
\<close>

theorem table_invariants:
  assumes "set_iter_ok set_iter" and "[] \<notin> set wb" and "current_pos < length t"
  shows "\<exists>dp. table_at set_iter t wb current_pos i = Inr dp
           \<and> length dp = length t + 1
           \<and> dp ! 0 = [[]]
           \<and> (\<forall>k \<le> length t. \<forall>c \<in> set (dp ! k).
                 concat (rev c) = take k t \<and> length (concat c) = k)"
proof -
  obtain dp W where
    run: "table_at set_iter t wb current_pos i = Inr dp"
    and inv: "table_inv t (set wb) current_pos W dp"
    using table_at_inv [OF assms] by blast
  have len: "length dp = length t + 1"
    and slots: "\<And>k. k \<le> length t \<Longrightarrow> dp ! k = partial_slot t (set wb) current_pos W k"
    using inv by (simp_all add: table_inv_def)
  have zero: "dp ! 0 = [[]]"
    using slots [of 0] by (simp add: partial_slot_def)
  have "concat (rev c) = take k t \<and> length (concat c) = k"
    if "k \<le> length t" "c \<in> set (dp ! k)" for k c
  proof -
    have "c \<in> set (slot_ref t (set wb) k)"
      using that slots [of k] partial_slot_subset by simp
    then have "concat (rev c) = take k t"
      using slot_ref_sound [OF that(1)] by blast
    moreover from this have "length (concat (rev c)) = k"
      using that(1) by simp
    then have "length (concat c) = k"
      unfolding length_concat_rev .
    ultimately show ?thesis ..
  qed
  with run len zero show ?thesis by blast
qed

text \<open>
  The theorem at the end of the loop for the target \<open>''ab''\<close> and the bank
  \<open>[''a'', ''b'']\<close>.
\<close>

theorem table_invariants_witness:
  "set_iter_ok id \<and> [] \<notin> set [''a'', ''b''] \<and> 1 < length ''ab''
     \<and> table_at id ''ab'' [''a'', ''b''] 1 1 = Inr [[[]], [[''a'']], [[''b'', ''a'']]]
     \<and> concat (rev [''b'', ''a'']) = take 2 ''ab''"
proof -
  have ok: "set_iter_ok id"
    by (simp add: set_iter_ok_def)
  have b: "[] \<notin> set [''a'', ''b'']" and p: "1 < length ''ab''"
    by simp_all
  have run: "table_at id ''ab'' [''a'', ''b''] 1 1 = Inr [[[]], [[''a'']], [[''b'', ''a'']]]"
    by code_simp
  from table_invariants [OF ok b p, of 1] run
  have "\<forall>k \<le> length ''ab''. \<forall>c \<in> set ([[[]], [[''a'']], [[''b'', ''a'']]] ! k).
          concat (rev c) = take k ''ab'' \<and> length (concat c) = k"
    by simp
  then have "\<forall>c \<in> set ([[[]], [[''a'']], [[''b'', ''a'']]] ! 2).
          concat (rev c) = take 2 ''ab'' \<and> length (concat c) = 2"
    by (rule allE [of _ 2]) simp
  then have "concat (rev [''b'', ''a'']) = take 2 ''ab''"
    by simp
  with ok b p run show ?thesis by blast
qed

text \<open>
  Claim C5 as it is stated fails: the source builds each combination with
  \<^verbatim>\<open>[word, *combination]\<close>, so slot \<open>2\<close> of that table holds \<open>[''b'', ''a'']\<close>, whose
  words concatenate to \<open>''ba''\<close> and not to \<open>''ab''\<close>.
\<close>

theorem table_invariants_counterexample:
  "table_at id ''ab'' [''a'', ''b''] 1 1 = Inr [[[]], [[''a'']], [[''b'', ''a'']]]
     \<and> [''b'', ''a''] \<in> set ([[[]], [[''a'']], [[''b'', ''a'']]] ! 2)
     \<and> concat [''b'', ''a''] \<noteq> take 2 ''ab''"
  by code_simp

subsection \<open>C6: the order of the result\<close>

text \<open>
  Claim C6, amended. For a valid target the result is determined, as a list, by the
  target and the set of words of the bank: it is the same for every iteration order of
  the sets and for every arrangement or repetition of the same words in the bank. Its
  decompositions come in the order of the positions of the fill: the offset at which
  the last word starts never decreases along the result.
\<close>

theorem all_construct_order:
  assumes "set_iter_ok set_iter" and "set_iter_ok set_iter'"
    and "t \<noteq> []" and "[] \<notin> set wb" and "set wb' = set wb"
  shows "\<exists>r. all_construct set_iter (PStr t) (PList (map PStr wb)) = Inr r
           \<and> all_construct set_iter' (PStr t) (PList (map PStr wb')) = Inr r
           \<and> sorted (map (last_word_start t) r)"
proof -
  let ?r = "map rev (slot_ref t (set wb) (length t))"
  have "[] \<notin> set wb'"
    using assms(4,5) by simp
  then have "all_construct set_iter' (PStr t) (PList (map PStr wb')) = Inr ?r"
    using all_construct_ref [OF assms(2,3), of wb'] assms(5) by simp
  moreover have "map (last_word_start t) ?r =
      map (\<lambda>c. length t - length (hd c)) (slot_ref t (set wb) (length t))"
    by (simp add: last_word_start_def last_rev)
  then have "sorted (map (last_word_start t) ?r)"
    using slot_ref_sorted [of "length t" t "set wb"] by (simp only: order_refl)
  ultimately show ?thesis
    using all_construct_ref [OF assms(1,3,4)] by simp
qed

text \<open>
  The theorem at the target \<open>''ab''\<close>, with two arrangements of one bank and two
  iteration orders.
\<close>

theorem all_construct_order_witness:
  "set_iter_ok id \<and> set_iter_ok rev \<and> ''ab'' \<noteq> [] \<and> [] \<notin> set [''a'', ''ab'', ''b'']
     \<and> set [''b'', ''ab'', ''a'', ''ab''] = set [''a'', ''ab'', ''b'']
     \<and> (\<exists>r. all_construct id (PStr ''ab'') (PList (map PStr [''a'', ''ab'', ''b''])) = Inr r
           \<and> all_construct rev (PStr ''ab'') (PList (map PStr [''b'', ''ab'', ''a'', ''ab''])) = Inr r
           \<and> sorted (map (last_word_start ''ab'') r))"
proof -
  have ok: "set_iter_ok id" "set_iter_ok rev"
    by (simp_all add: set_iter_ok_def)
  have t: "''ab'' \<noteq> []" and b: "[] \<notin> set [''a'', ''ab'', ''b'']"
    and s: "set [''b'', ''ab'', ''a'', ''ab''] = set [''a'', ''ab'', ''b'']"
    by auto
  from ok t b s all_construct_order [OF ok t b s] show ?thesis
    by blast
qed

text \<open>
  Claim C6 as it is stated fails. In the bank \<open>[''a'', ''ab'', ''b'']\<close> the word \<open>''a''\<close>
  is scanned before \<open>''ab''\<close>, yet the result lists \<open>[''ab'']\<close> before \<open>[''a'', ''b'']\<close>,
  whichever way the set of the words at offset \<open>0\<close> is iterated: the ranks of the first
  words in the scan of the bank are \<open>[1, 0]\<close>.
\<close>

theorem all_construct_order_counterexample:
  "all_construct id (PStr ''ab'') (PList (map PStr [''a'', ''ab'', ''b''])) = Inr [[''ab''], [''a'', ''b'']]
     \<and> all_construct rev (PStr ''ab'') (PList (map PStr [''a'', ''ab'', ''b''])) = Inr [[''ab''], [''a'', ''b'']]
     \<and> map (first_word_rank [''a'', ''ab'', ''b'']) [[''ab''], [''a'', ''b'']] = [1, 0]
     \<and> \<not> sorted (map (first_word_rank [''a'', ''ab'', ''b'']) [[''ab''], [''a'', ''b'']])"
  by code_simp

subsection \<open>C7: the order and the repetitions of the bank\<close>

text \<open>
  Claim C7. For a valid target and two valid word banks with the same set of words, the
  two results hold the same decompositions, and at every position the words found there
  are iterated once each, however often the bank repeats them.
\<close>

theorem all_construct_bank_set:
  assumes "set_iter_ok set_iter1" and "set_iter_ok set_iter2"
    and "t \<noteq> []" and "[] \<notin> set wb1" and "set wb2 = set wb1"
  shows "\<exists>r1 r2. all_construct set_iter1 (PStr t) (PList (map PStr wb1)) = Inr r1
           \<and> all_construct set_iter2 (PStr t) (PList (map PStr wb2)) = Inr r2
           \<and> set r1 = set r2
           \<and> (\<forall>i. distinct (words_at set_iter1 (build_word_positions t wb1) i))"
proof -
  have "[] \<notin> set wb2"
    using assms(4,5) by simp
  then have "all_construct set_iter2 (PStr t) (PList (map PStr wb2)) =
      Inr (map rev (slot_ref t (set wb1) (length t)))"
    using all_construct_ref [OF assms(2,3), of wb2] assms(5) by simp
  then show ?thesis
    using all_construct_ref [OF assms(1,3,4)] distinct_words_at [OF assms(1)] by simp
qed

text \<open>The theorem at the banks \<open>[''a'', ''aa'']\<close> and \<open>[''aa'', ''a'', ''a'']\<close>.\<close>

theorem all_construct_bank_set_witness:
  "set_iter_ok id \<and> set_iter_ok rev \<and> ''aa'' \<noteq> [] \<and> [] \<notin> set [''a'', ''aa'']
     \<and> set [''aa'', ''a'', ''a''] = set [''a'', ''aa'']
     \<and> (\<exists>r1 r2. all_construct id (PStr ''aa'') (PList (map PStr [''a'', ''aa''])) = Inr r1
           \<and> all_construct rev (PStr ''aa'') (PList (map PStr [''aa'', ''a'', ''a''])) = Inr r2
           \<and> set r1 = set r2)"
proof -
  have ok: "set_iter_ok id" "set_iter_ok rev"
    by (simp_all add: set_iter_ok_def)
  have t: "''aa'' \<noteq> []" and b: "[] \<notin> set [''a'', ''aa'']"
    and s: "set [''aa'', ''a'', ''a''] = set [''a'', ''aa'']"
    by auto
  from ok t b s all_construct_bank_set [OF ok t b s] show ?thesis
    by blast
qed

subsection \<open>C8: accesses stay in bounds\<close>

text \<open>
  Claim C8. On valid arguments the function returns a result: no access beyond the end
  of the table occurs and no loop runs forever. A word is only compared with the target
  at offsets where it fits, and for every word found at a position the index
  \<open>end_pos = current_pos + len(word)\<close> is at most the length of the target, hence inside
  the table, the word being the piece of the target between the two.
\<close>

theorem all_construct_bounds:
  assumes "set_iter_ok set_iter" and "t \<noteq> []" and "[] \<notin> set wb"
  shows "(\<exists>r. all_construct set_iter (PStr t) (PList (map PStr wb)) = Inr r)
       \<and> (\<forall>word i. i \<in> set (scan_offsets t word) \<longrightarrow> i + length word \<le> length t)
       \<and> (\<forall>current_pos word.
            word \<in> set (words_at set_iter (build_word_positions t wb) current_pos) \<longrightarrow>
              current_pos + length word \<le> length t
              \<and> current_pos + length word < length (init_table (length t))
              \<and> slice t current_pos (current_pos + length word) = word)"
proof -
  have "\<exists>r. all_construct set_iter (PStr t) (PList (map PStr wb)) = Inr r"
    by (simp add: all_construct_ref [OF assms])
  moreover have "length (init_table (length t)) = length t + 1"
    by (simp add: init_table_def)
  ultimately show ?thesis
    using set_words_at [OF assms(1), of t wb] by (auto simp: matches_at_def scan_offsets_iff)
qed

text \<open>
  The theorem at the target \<open>''ab''\<close> and a bank with a word longer than the target.
\<close>

theorem all_construct_bounds_witness:
  "set_iter_ok id \<and> ''ab'' \<noteq> [] \<and> [] \<notin> set [''a'', ''b'', ''abc'']
     \<and> ''b'' \<in> set (words_at id (build_word_positions ''ab'' [''a'', ''b'', ''abc'']) 1)
     \<and> 1 + length ''b'' \<le> length ''ab''
     \<and> (\<exists>r. all_construct id (PStr ''ab'') (PList (map PStr [''a'', ''b'', ''abc''])) = Inr r)"
proof -
  have ok: "set_iter_ok id"
    by (simp add: set_iter_ok_def)
  have w: "''b'' \<in> set (words_at id (build_word_positions ''ab'' [''a'', ''b'', ''abc'']) 1)"
    by code_simp
  have t: "''ab'' \<noteq> []" and b: "[] \<notin> set [''a'', ''b'', ''abc'']"
    by simp_all
  note r = all_construct_bounds [OF ok t b]
  from r w have "1 + length ''b'' \<le> length ''ab''"
    by blast
  moreover from r
  have "\<exists>r. all_construct id (PStr ''ab'') (PList (map PStr [''a'', ''b'', ''abc''])) = Inr r"
    by blast
  ultimately show ?thesis
    using ok t b w by blast
qed

subsection \<open>C9: a falsy word bank\<close>

text \<open>
  Claim C9. For a valid target, a word bank that is \<^verbatim>\<open>None\<close>, \<^verbatim>\<open>0\<close>, \<^verbatim>\<open>False\<close>,
  the empty string or the empty list raises no error and gives the result of the empty
  bank, the empty list.
\<close>

theorem all_construct_falsy_bank:
  assumes "t \<noteq> []" and "x \<in> {PNone, PInt 0, PBool False, PStr [], PList []}"
  shows "all_construct set_iter (PStr t) x = all_construct set_iter (PStr t) (PList [])
       \<and> all_construct set_iter (PStr t) x = Inr []"
proof -
  have "\<not> truthy x"
    using assms(2) by auto
  then have "all_construct set_iter (PStr t) x = construct set_iter t []"
    using assms(1) by (simp add: all_construct_def)
  moreover have "all_construct set_iter (PStr t) (PList []) = construct set_iter t []"
    using assms(1) by (simp add: all_construct_def)
  ultimately show ?thesis
    using assms(1) by (simp add: construct_empty_bank)
qed

text \<open>The theorem at the bank \<^verbatim>\<open>0\<close>.\<close>

theorem all_construct_falsy_bank_witness:
  "''ab'' \<noteq> [] \<and> PInt 0 \<in> {PNone, PInt 0, PBool False, PStr [], PList []}
     \<and> all_construct rev (PStr ''ab'') (PInt 0) = all_construct rev (PStr ''ab'') (PList [])
     \<and> all_construct rev (PStr ''ab'') (PInt 0) = Inr []"
proof -
  have t: "''ab'' \<noteq> []" and x: "PInt 0 \<in> {PNone, PInt 0, PBool False, PStr [], PList []}"
    by simp_all
  from t x all_construct_falsy_bank [OF t x, of rev] show ?thesis
    by blast
qed

subsection \<open>C10: the length of a decomposition\<close>

text \<open>
  Claim C10. For a valid target \<open>t\<close> and a valid word bank, every decomposition in the
  result has at least one word and at most \<open>length t\<close> words.
\<close>

theorem all_construct_lengths:
  assumes "set_iter_ok set_iter" and "t \<noteq> []" and "[] \<notin> set wb"
  shows "\<exists>r. all_construct set_iter (PStr t) (PList (map PStr wb)) = Inr r
           \<and> (\<forall>D \<in> set r. 1 \<le> length D \<and> length D \<le> length t)"
proof -
  have "1 \<le> length (rev c) \<and> length (rev c) \<le> length t"
    if "c \<in> set (slot_ref t (set wb) (length t))" for c
  proof -
    have c: "concat (rev c) = t" "set (rev c) \<subseteq> set wb"
      using slot_ref_sound [of "length t" t c "set wb"] that by simp_all
    then have "[] \<notin> set (rev c)"
      using assms(3) by auto
    moreover have "concat (rev c) \<noteq> []"
      using c(1) assms(2) by simp
    ultimately have "1 \<le> length (rev c) \<and> length (rev c) \<le> length (concat (rev c))"
      by (rule decomposition_length)
    then show ?thesis
      unfolding c(1) .
  qed
  then show ?thesis
    unfolding all_construct_ref [OF assms] by auto
qed

text \<open>The theorem at the target \<open>''ab''\<close> and the bank \<open>[''a'', ''b'', ''ab'']\<close>.\<close>

theorem all_construct_lengths_witness:
  "set_iter_ok id \<and> ''ab'' \<noteq> [] \<and> [] \<notin> set [''a'', ''b'', ''ab'']
     \<and> (\<exists>r. all_construct id (PStr ''ab'') (PList (map PStr [''a'', ''b'', ''ab''])) = Inr r
           \<and> (\<forall>D \<in> set r. 1 \<le> length D \<and> length D \<le> length ''ab''))"
  using all_construct_lengths [of id "''ab''" "[''a'', ''b'', ''ab'']"]
  by (simp add: set_iter_ok_def)

end
